theory Spec2Isabelle
  imports
    Complex_Main
    "HOL-Library.AList"
    "HOL-Library.Sublist"
    "HOL-Library.List_Lexorder"
    "HOL-Library.Char_ord"
begin

section \<open>The file system the mirroring script runs on\<close>

text \<open>
  \<^verbatim>\<open>mirrorer.py\<close> is written against \<^verbatim>\<open>pathlib\<close>, \<^verbatim>\<open>os\<close> and \<^verbatim>\<open>shutil\<close>.
  Those calls are modelled on a tree of nodes.  A path is the list of its components
  below the file-system root (\<^verbatim>\<open>main\<close> resolves both roots to absolute paths before
  it calls \<^verbatim>\<open>sync_directories\<close>); a relative path is the list of components below a
  scan root, so \<^verbatim>\<open>Path(".")\<close> is the empty list.

  Modelling decisions, all of them about the operating system and none about the script:
  \<^item> a regular file is its byte content and its attributes, its size is the length of
    the content; a symbolic link is its raw target string and its attributes, its size
    is the length of the target; a directory stores the size \<^verbatim>\<open>lstat\<close> reports for it;
  \<^item> Python floats (\<^verbatim>\<open>st_mtime\<close>, \<^verbatim>\<open>time_tolerance\<close>) are real numbers;
  \<^item> a symbolic link is followed only as the last component of a path (at most 40
    times, then \<^verbatim>\<open>ELOOP\<close>); the components before it are looked up as they stand;
  \<^item> a system call fails for structural reasons only (missing entry, wrong kind of
    entry, directory not empty, entry exists); permissions and devices are not modelled;
  \<^item> creating or removing an entry leaves the time stamps of its directory alone;
  \<^item> output to the terminal is not modelled, so the \<^verbatim>\<open>verbose\<close> flag has no parameter.
\<close>

type_synonym path = "string list"

record attrs =
  st_mode :: nat
  st_atime :: real
  st_mtime :: real

datatype node =
    File string attrs
  | Link string attrs
  | Dir nat attrs "(string \<times> node) list"

datatype oserror =
  ENOENT | ENOTDIR | EEXIST | EISDIR | ENOTEMPTY | ELOOP | EINVAL | EBUSY | SameFileError

text \<open>What \<^verbatim>\<open>os.lstat\<close> and \<^verbatim>\<open>os.stat\<close> return.\<close>

record stat_result =
  sr_mode :: nat
  sr_size :: nat
  sr_atime :: real
  sr_mtime :: real

fun node_attrs :: "node \<Rightarrow> attrs" where
  "node_attrs (File c a) = a"
| "node_attrs (Link t a) = a"
| "node_attrs (Dir sz a es) = a"

fun node_size :: "node \<Rightarrow> nat" where
  "node_size (File c a) = length c"
| "node_size (Link t a) = length t"
| "node_size (Dir sz a es) = sz"

definition stat_of :: "node \<Rightarrow> stat_result" where
  "stat_of n =
     \<lparr>sr_mode = st_mode (node_attrs n), sr_size = node_size n,
      sr_atime = st_atime (node_attrs n), sr_mtime = st_mtime (node_attrs n)\<rparr>"

fun set_attrs :: "attrs \<Rightarrow> node \<Rightarrow> node" where
  "set_attrs b (File c a) = File c b"
| "set_attrs b (Link t a) = Link t b"
| "set_attrs b (Dir sz a es) = Dir sz b es"

fun is_Dir :: "node \<Rightarrow> bool" where
  "is_Dir (Dir sz a es) = True"
| "is_Dir n = False"

fun is_Link :: "node \<Rightarrow> bool" where
  "is_Link (Link t a) = True"
| "is_Link n = False"

fun is_File :: "node \<Rightarrow> bool" where
  "is_File (File c a) = True"
| "is_File n = False"

subsection \<open>Looking a path up, storing and removing an entry\<close>

fun lookup :: "node \<Rightarrow> path \<Rightarrow> node option" where
  "lookup n [] = Some n"
| "lookup (Dir sz a es) (x # p) =
     (case map_of es x of None \<Rightarrow> None | Some c \<Rightarrow> lookup c p)"
| "lookup n (x # p) = None"

fun put :: "node \<Rightarrow> path \<Rightarrow> node \<Rightarrow> node" where
  "put t [] n = n"
| "put (Dir sz a es) (x # p) n =
     (if p = [] then Dir sz a (AList.update x n es)
      else (case map_of es x of
              None \<Rightarrow> Dir sz a es
            | Some c \<Rightarrow> Dir sz a (AList.update x (put c p n) es)))"
| "put t (x # p) n = t"

fun remove :: "node \<Rightarrow> path \<Rightarrow> node" where
  "remove t [] = t"
| "remove (Dir sz a es) (x # p) =
     (if p = [] then Dir sz a (AList.delete x es)
      else (case map_of es x of
              None \<Rightarrow> Dir sz a es
            | Some c \<Rightarrow> Dir sz a (AList.update x (remove c p) es)))"
| "remove t (x # p) = t"

subsection \<open>Symbolic links\<close>

text \<open>
  The target string of a link is split at \<^verbatim>\<open>/\<close>; \<^verbatim>\<open>.\<close> and \<^verbatim>\<open>..\<close> are resolved
  lexically, from the directory that holds the link, or from the root when the target is
  absolute.
\<close>

fun split_slash :: "string \<Rightarrow> string \<Rightarrow> string list" where
  "split_slash acc [] = (if acc = [] then [] else [acc])"
| "split_slash acc (c # cs) =
     (if c = CHR ''/'' then (if acc = [] then [] else [acc]) @ split_slash [] cs
      else split_slash (acc @ [c]) cs)"

fun walk_parts :: "path \<Rightarrow> string list \<Rightarrow> path" where
  "walk_parts base [] = base"
| "walk_parts base (c # cs) =
     (if c = ''.'' then walk_parts base cs
      else if c = ''..'' then walk_parts (butlast base) cs
      else walk_parts (base @ [c]) cs)"

definition link_dest :: "path \<Rightarrow> string \<Rightarrow> path" where
  "link_dest d t =
     (if take 1 t = ''/'' then walk_parts [] (split_slash [] t)
      else walk_parts d (split_slash [] t))"

text \<open>
  \<open>follow k fs p\<close> is the path at which the chain of links that starts at \<open>p\<close> ends (the
  entry there is not a link, or is missing), or \<open>None\<close> after more than \<open>k\<close> links.
\<close>

fun follow :: "nat \<Rightarrow> node \<Rightarrow> path \<Rightarrow> path option" where
  "follow k fs p =
     (case lookup fs p of
        Some (Link t a) \<Rightarrow>
          (if k = 0 \<or> t = [] then None
           else follow (k - 1) fs (link_dest (butlast p) t))
      | _ \<Rightarrow> Some p)"

definition realpath :: "node \<Rightarrow> path \<Rightarrow> path option" where
  "realpath fs p = follow 40 fs p"

subsection \<open>The calls of \<^verbatim>\<open>os\<close> and \<^verbatim>\<open>pathlib\<close> that only read\<close>

definition os_lstat :: "node \<Rightarrow> path \<Rightarrow> oserror + stat_result" where
  "os_lstat fs p = (case lookup fs p of None \<Rightarrow> Inl ENOENT | Some n \<Rightarrow> Inr (stat_of n))"

definition stat_node :: "node \<Rightarrow> path \<Rightarrow> oserror + node" where
  "stat_node fs p =
     (case realpath fs p of
        None \<Rightarrow> Inl ELOOP
      | Some q \<Rightarrow> (case lookup fs q of None \<Rightarrow> Inl ENOENT | Some n \<Rightarrow> Inr n))"

definition os_stat :: "node \<Rightarrow> path \<Rightarrow> oserror + stat_result" where
  "os_stat fs p = (case stat_node fs p of Inl e \<Rightarrow> Inl e | Inr n \<Rightarrow> Inr (stat_of n))"

text \<open>\<^verbatim>\<open>Path.exists\<close>, \<^verbatim>\<open>Path.is_dir\<close>: they follow links and answer False on an error.\<close>

definition exists :: "node \<Rightarrow> path \<Rightarrow> bool" where
  "exists fs p = (case stat_node fs p of Inl e \<Rightarrow> False | Inr n \<Rightarrow> True)"

definition is_dir :: "node \<Rightarrow> path \<Rightarrow> bool" where
  "is_dir fs p = (case stat_node fs p of Inl e \<Rightarrow> False | Inr n \<Rightarrow> is_Dir n)"

text \<open>\<^verbatim>\<open>Path.is_symlink\<close>: it does not follow links.\<close>

definition is_symlink :: "node \<Rightarrow> path \<Rightarrow> bool" where
  "is_symlink fs p = (case lookup fs p of None \<Rightarrow> False | Some n \<Rightarrow> is_Link n)"

definition os_readlink :: "node \<Rightarrow> path \<Rightarrow> oserror + string" where
  "os_readlink fs p =
     (case lookup fs p of
        None \<Rightarrow> Inl ENOENT
      | Some (Link t a) \<Rightarrow> Inr t
      | Some n \<Rightarrow> Inl EINVAL)"

text \<open>\<^verbatim>\<open>os.scandir\<close>: the names in a directory.\<close>

definition scandir :: "node \<Rightarrow> path \<Rightarrow> oserror + string list" where
  "scandir fs p =
     (case lookup fs p of
        None \<Rightarrow> Inl ENOENT
      | Some (Dir sz a es) \<Rightarrow> Inr (map fst es)
      | Some n \<Rightarrow> Inl ENOTDIR)"

subsection \<open>The calls that write\<close>

text \<open>
  The clock and the default modes a new entry gets: \<open>now\<close> is the time of the run,
  a new directory has mode \<^verbatim>\<open>0o755\<close> and a new link \<^verbatim>\<open>0o777\<close>.
\<close>

definition new_dir :: "real \<Rightarrow> node" where
  "new_dir now = Dir 4096 \<lparr>st_mode = 493, st_atime = now, st_mtime = now\<rparr> []"

definition new_link :: "real \<Rightarrow> string \<Rightarrow> node" where
  "new_link now t = Link t \<lparr>st_mode = 511, st_atime = now, st_mtime = now\<rparr>"

text \<open>Whether an entry can be created at \<open>p\<close>: its directory is there.\<close>

definition parent_error :: "node \<Rightarrow> path \<Rightarrow> oserror option" where
  "parent_error fs p =
     (case lookup fs (butlast p) of
        None \<Rightarrow> Some ENOENT
      | Some (Dir sz a es) \<Rightarrow> None
      | Some n \<Rightarrow> Some ENOTDIR)"

definition os_unlink :: "node \<Rightarrow> path \<Rightarrow> oserror + node" where
  "os_unlink fs p =
     (case lookup fs p of
        None \<Rightarrow> Inl ENOENT
      | Some (Dir sz a es) \<Rightarrow> Inl EISDIR
      | Some n \<Rightarrow> Inr (remove fs p))"

definition os_rmdir :: "node \<Rightarrow> path \<Rightarrow> oserror + node" where
  "os_rmdir fs p =
     (case lookup fs p of
        None \<Rightarrow> Inl ENOENT
      | Some (Dir sz a es) \<Rightarrow>
          (if p = [] then Inl EBUSY
           else if es = [] then Inr (remove fs p)
           else Inl ENOTEMPTY)
      | Some n \<Rightarrow> Inl ENOTDIR)"

definition os_mkdir :: "real \<Rightarrow> node \<Rightarrow> path \<Rightarrow> oserror + node" where
  "os_mkdir now fs p =
     (case lookup fs p of
        Some n \<Rightarrow> Inl EEXIST
      | None \<Rightarrow>
          (case parent_error fs p of
             Some e \<Rightarrow> Inl e
           | None \<Rightarrow> Inr (put fs p (new_dir now))))"

definition os_symlink :: "real \<Rightarrow> node \<Rightarrow> string \<Rightarrow> path \<Rightarrow> oserror + node" where
  "os_symlink now fs t p =
     (case lookup fs p of
        Some n \<Rightarrow> Inl EEXIST
      | None \<Rightarrow>
          (case parent_error fs p of
             Some e \<Rightarrow> Inl e
           | None \<Rightarrow> Inr (put fs p (new_link now t))))"

text \<open>
  \<^verbatim>\<open>Path.mkdir(parents=True, exist_ok=True)\<close>: \<^verbatim>\<open>os.mkdir\<close>; on \<^verbatim>\<open>FileNotFoundError\<close>
  the parent is made first and \<^verbatim>\<open>os.mkdir\<close> is tried again; any other error is
  swallowed when the path is a directory by then.
\<close>

function mkdir_parents :: "real \<Rightarrow> node \<Rightarrow> path \<Rightarrow> oserror + node" where
  "mkdir_parents now fs p =
     (case os_mkdir now fs p of
        Inr fs' \<Rightarrow> Inr fs'
      | Inl e \<Rightarrow>
          (if e = ENOENT then
             (if p = [] then Inl e
              else (case mkdir_parents now fs (butlast p) of
                      Inl e' \<Rightarrow> Inl e'
                    | Inr fs1 \<Rightarrow>
                        (case os_mkdir now fs1 p of
                           Inr fs2 \<Rightarrow> Inr fs2
                         | Inl e2 \<Rightarrow>
                             (if e2 \<noteq> ENOENT \<and> is_dir fs1 p then Inr fs1 else Inl e2))))
           else if is_dir fs p then Inr fs
           else Inl e))"
  by pat_completeness auto
termination
  by (relation "measure (\<lambda>(now, fs, p). length p)") auto

text \<open>\<^verbatim>\<open>os.utime\<close> and \<^verbatim>\<open>Path.chmod\<close>: both follow links.\<close>

definition os_utime :: "node \<Rightarrow> path \<Rightarrow> real \<Rightarrow> real \<Rightarrow> oserror + node" where
  "os_utime fs p atm mtm =
     (case realpath fs p of
        None \<Rightarrow> Inl ELOOP
      | Some q \<Rightarrow>
          (case lookup fs q of
             None \<Rightarrow> Inl ENOENT
           | Some n \<Rightarrow>
               Inr (put fs q (set_attrs ((node_attrs n)\<lparr>st_atime := atm, st_mtime := mtm\<rparr>) n))))"

definition chmod :: "node \<Rightarrow> path \<Rightarrow> nat \<Rightarrow> oserror + node" where
  "chmod fs p m =
     (case realpath fs p of
        None \<Rightarrow> Inl ELOOP
      | Some q \<Rightarrow>
          (case lookup fs q of
             None \<Rightarrow> Inl ENOENT
           | Some n \<Rightarrow> Inr (put fs q (set_attrs ((node_attrs n)\<lparr>st_mode := m\<rparr>) n))))"

text \<open>
  \<^verbatim>\<open>shutil.copy2(src, dst)\<close>: when \<open>dst\<close> is a directory the file goes into it under the
  base name of \<open>src\<close>; both sides are opened through links; content, mode and times of
  the source arrive at the destination.
\<close>

definition shutil_copy2 :: "node \<Rightarrow> path \<Rightarrow> path \<Rightarrow> oserror + node" where
  "shutil_copy2 fs src dst =
     (let dst1 = (if is_dir fs dst then dst @ [last src] else dst) in
      case stat_node fs src of
        Inl e \<Rightarrow> Inl e
      | Inr (Dir sz a es) \<Rightarrow> Inl EISDIR
      | Inr (Link t a) \<Rightarrow> Inl ELOOP
      | Inr (File c a) \<Rightarrow>
          (case realpath fs dst1 of
             None \<Rightarrow> Inl ELOOP
           | Some q \<Rightarrow>
               (if realpath fs src = Some q then Inl SameFileError
                else (case lookup fs q of
                        Some (Dir sz' a' es') \<Rightarrow> Inl EISDIR
                      | Some n \<Rightarrow> Inr (put fs q (File c a))
                      | None \<Rightarrow>
                          (case parent_error fs q of
                             Some e \<Rightarrow> Inl e
                           | None \<Rightarrow> Inr (put fs q (File c a)))))))"

section \<open>The script\<close>

text \<open>
  A Python \<^verbatim>\<open>set\<close> of paths is a list without repetitions, in the order the paths
  were added; no theorem below depends on that order, except through the two sorts the
  script itself applies.
\<close>

definition set_add :: "'a \<Rightarrow> 'a list \<Rightarrow> 'a list" where
  "set_add x xs = (if x \<in> set xs then xs else xs @ [x])"

subsection \<open>\<^verbatim>\<open>os.walk(root, followlinks=False)\<close>\<close>

text \<open>
  Top-down: a directory yields its path, the names of the entries that are directories
  (links to directories among them, since \<^verbatim>\<open>DirEntry.is_dir\<close> follows links) and the
  names of the other entries; then the walk goes into each of the former that is not a
  link.  A path that cannot be listed yields nothing.  The script passes
  \<^verbatim>\<open>followlinks=False\<close> at both of its calls, and that is the case modelled.
\<close>

lemma lookup_append:
  "lookup t (p @ q) = (case lookup t p of None \<Rightarrow> None | Some n \<Rightarrow> lookup n q)"
  by (induction t p rule: lookup.induct) (auto split: option.splits)

lemma map_of_size_less:
  "map_of es x = Some c \<Longrightarrow> size c < Suc (size_list (size_prod (\<lambda>_. 0) size) es)"
  by (induction es) (auto split: if_splits)

function os_walk :: "node \<Rightarrow> path \<Rightarrow> (path \<times> string list \<times> string list) list" where
  "os_walk fs tp =
     (case scandir fs tp of
        Inl e \<Rightarrow> []
      | Inr names \<Rightarrow>
          (tp, filter (\<lambda>n. is_dir fs (tp @ [n])) names,
               filter (\<lambda>n. \<not> is_dir fs (tp @ [n])) names)
          # concat (map (\<lambda>d. os_walk fs (tp @ [d]))
                        (filter (\<lambda>d. \<not> is_symlink fs (tp @ [d]))
                                (filter (\<lambda>n. is_dir fs (tp @ [n])) names))))"
  by pat_completeness auto
termination os_walk
proof (relation "measure (\<lambda>(fs, tp). case lookup fs tp of None \<Rightarrow> 0 | Some n \<Rightarrow> size n)")
  show "wf (measure (\<lambda>(fs, tp). case lookup fs tp of None \<Rightarrow> 0 | Some n \<Rightarrow> size n))"
    by simp
next
  fix fs :: node and tp :: path and names :: "string list" and d :: string
  assume sc: "scandir fs tp = Inr names"
  from sc obtain sz a es where l: "lookup fs tp = Some (Dir sz a es)"
    by (auto simp: scandir_def split: option.splits node.splits)
  have "(case lookup fs (tp @ [d]) of None \<Rightarrow> 0 | Some n \<Rightarrow> size n) < size (Dir sz a es)"
    using map_of_size_less [of es d]
    by (auto simp: lookup_append l split: option.splits)
  then show "((fs, tp @ [d]), (fs, tp))
      \<in> measure (\<lambda>(fs, tp). case lookup fs tp of None \<Rightarrow> 0 | Some n \<Rightarrow> size n)"
    by (simp add: l)
qed

subsection \<open>\<^verbatim>\<open>get_relative_paths\<close>\<close>

text \<open>
  \<^verbatim>\<open>Path(dirpath).relative_to(root)\<close> drops the components of \<open>root\<close>: every path
  \<^verbatim>\<open>os.walk\<close> yields extends \<open>root\<close>, so \<^verbatim>\<open>relative_to\<close> cannot raise there.
\<close>

definition walk_step :: "path \<Rightarrow> path list \<Rightarrow> path \<times> string list \<times> string list \<Rightarrow> path list" where
  "walk_step scan_root paths triple =
     (case triple of (dirpath, dirnames, filenames) \<Rightarrow>
        (let rel_dir = drop (length scan_root) dirpath;
             paths1 = (if rel_dir \<noteq> [] then set_add rel_dir paths else paths)
         in fold (\<lambda>filename acc. set_add (rel_dir @ [filename]) acc) filenames paths1))"

definition get_relative_paths :: "node \<Rightarrow> path \<Rightarrow> path list" where
  "get_relative_paths fs scan_root = fold (\<lambda>triple acc. walk_step scan_root acc triple) (os_walk fs scan_root) []"

subsection \<open>\<^verbatim>\<open>should_copy\<close>\<close>

definition should_copy :: "node \<Rightarrow> path \<Rightarrow> path \<Rightarrow> real \<Rightarrow> bool" where
  "should_copy fs src dst time_tolerance =
     (if \<not> exists fs dst then True
      else if is_symlink fs dst then True
      else (case os_lstat fs src of
              Inl e \<Rightarrow> True
            | Inr src_stat \<Rightarrow>
                (case os_lstat fs dst of
                   Inl e \<Rightarrow> True
                 | Inr dst_stat \<Rightarrow>
                     (if sr_size src_stat \<noteq> sr_size dst_stat then True
                      else if \<bar>sr_mtime src_stat - sr_mtime dst_stat\<bar> > time_tolerance then True
                      else False))))"

subsection \<open>\<^verbatim>\<open>copy_with_metadata\<close>\<close>

text \<open>
  The result is the exception the function raises, if any, and the file system as the
  function leaves it.  The errors of \<^verbatim>\<open>os.utime\<close> and \<^verbatim>\<open>chmod\<close> are swallowed, as
  in the script.
\<close>

definition copy_with_metadata :: "real \<Rightarrow> node \<Rightarrow> path \<Rightarrow> path \<Rightarrow> oserror option \<times> node" where
  "copy_with_metadata now fs src dst =
     (if is_symlink fs src then
        (case (if exists fs dst \<or> is_symlink fs dst then os_unlink fs dst else Inr fs) of
           Inl e \<Rightarrow> (Some e, fs)
         | Inr fs1 \<Rightarrow>
             (case os_readlink fs1 src of
                Inl e \<Rightarrow> (Some e, fs1)
              | Inr link_target \<Rightarrow>
                  (case os_symlink now fs1 link_target dst of
                     Inl e \<Rightarrow> (Some e, fs1)
                   | Inr fs2 \<Rightarrow> (None, fs2))))
      else
        (case shutil_copy2 fs src dst of
           Inl e \<Rightarrow> (Some e, fs)
         | Inr fs1 \<Rightarrow>
             (case os_stat fs1 src of
                Inl e \<Rightarrow> (Some e, fs1)
              | Inr src_stat \<Rightarrow>
                  (let fs2 = (case os_utime fs1 dst (sr_atime src_stat) (sr_mtime src_stat) of
                                Inl e \<Rightarrow> fs1 | Inr f \<Rightarrow> f);
                       fs3 = (case chmod fs2 dst (sr_mode src_stat) of
                                Inl e \<Rightarrow> fs2 | Inr f \<Rightarrow> f)
                   in (None, fs3)))))"

subsection \<open>\<^verbatim>\<open>is_path_inside\<close>\<close>

text \<open>\<^verbatim>\<open>PurePath.relative_to\<close> compares components; \<open>None\<close> is its \<^verbatim>\<open>ValueError\<close>.\<close>

definition relative_to :: "path \<Rightarrow> path \<Rightarrow> path option" where
  "relative_to child parent =
     (if prefix parent child then Some (drop (length parent) child) else None)"

definition is_path_inside :: "path \<Rightarrow> path \<Rightarrow> bool" where
  "is_path_inside child parent =
     (case relative_to child parent of Some r \<Rightarrow> True | None \<Rightarrow> False)"

subsection \<open>\<^verbatim>\<open>sync_directories\<close>: exclusion and difference\<close>

text \<open>
  \<^verbatim>\<open>str(p)\<close> of a relative path joins the components with \<^verbatim>\<open>/\<close>; \<^verbatim>\<open>pat in str(p)\<close>
  is the substring test.
\<close>

fun str_path :: "path \<Rightarrow> string" where
  "str_path [] = ''.''"
| "str_path [x] = x"
| "str_path (x # y # p) = x @ ''/'' @ str_path (y # p)"

fun is_substring :: "string \<Rightarrow> string \<Rightarrow> bool" where
  "is_substring pat [] = (pat = [])"
| "is_substring pat (c # cs) = (prefix pat (c # cs) \<or> is_substring pat cs)"

definition excluded :: "string list \<Rightarrow> path \<Rightarrow> bool" where
  "excluded exclude_patterns p = list_ex (\<lambda>pat. is_substring pat (str_path p)) exclude_patterns"

definition filter_source :: "string list \<Rightarrow> path list \<Rightarrow> path list" where
  "filter_source exclude_patterns source_paths =
     (if exclude_patterns \<noteq> [] then
        filter (\<lambda>p. \<not> excluded exclude_patterns p) source_paths
      else source_paths)"

definition paths_to_delete :: "path list \<Rightarrow> path list \<Rightarrow> path list" where
  "paths_to_delete dest_paths source_paths = filter (\<lambda>p. p \<notin> set source_paths) dest_paths"

text \<open>\<^verbatim>\<open>sorted(paths_to_delete, key=lambda p: len(p.parts), reverse=True)\<close>, a stable sort.\<close>

definition sorted_deletes :: "path list \<Rightarrow> path list" where
  "sorted_deletes to_delete = sort_key (\<lambda>p. - int (length p)) to_delete"

subsection \<open>\<^verbatim>\<open>sync_directories\<close>: the delete loop\<close>

definition delete_step :: "bool \<Rightarrow> path \<Rightarrow> node \<times> nat \<Rightarrow> path \<Rightarrow> node \<times> nat" where
  "delete_step dry_run destination st rel_path =
     (case st of (fs, deleted_count) \<Rightarrow>
        (let dst_path = destination @ rel_path in
         if exists fs dst_path \<or> is_symlink fs dst_path then
           (if dry_run then (fs, deleted_count + 1)
            else if is_dir fs dst_path \<and> \<not> is_symlink fs dst_path then
              (case os_rmdir fs dst_path of
                 Inl e \<Rightarrow> (fs, deleted_count)
               | Inr fs' \<Rightarrow> (fs', deleted_count + 1))
            else
              (case os_unlink fs dst_path of
                 Inl e \<Rightarrow> (fs, deleted_count)
               | Inr fs' \<Rightarrow> (fs', deleted_count + 1)))
         else (fs, deleted_count)))"

definition delete_phase :: "bool \<Rightarrow> path \<Rightarrow> node \<Rightarrow> path list \<Rightarrow> node \<times> nat" where
  "delete_phase dry_run destination fs to_delete =
     fold (\<lambda>rel_path st. delete_step dry_run destination st rel_path)
          (sorted_deletes to_delete) (fs, 0)"

subsection \<open>\<^verbatim>\<open>sync_directories\<close>: the copy loop\<close>

record sync_state =
  s_fs :: node
  copied_count :: nat
  created_dirs :: nat
  failed_copies :: nat
  directories_to_update :: "(path \<times> path) list"

definition copy_step ::
  "real \<Rightarrow> bool \<Rightarrow> path \<Rightarrow> path \<Rightarrow> real \<Rightarrow> sync_state \<Rightarrow> path \<Rightarrow> sync_state" where
  "copy_step now dry_run source destination time_tolerance st rel_path =
     (let src_path = source @ rel_path;
          dst_path = destination @ rel_path;
          fs = s_fs st
      in
      if is_dir fs src_path \<and> \<not> is_symlink fs src_path then
        (let st1 =
           (if \<not> exists fs dst_path then
              (if dry_run then st\<lparr>created_dirs := created_dirs st + 1\<rparr>
               else (case mkdir_parents now fs dst_path of
                       Inr fs' \<Rightarrow> st\<lparr>s_fs := fs', created_dirs := created_dirs st + 1\<rparr>
                     | Inl e \<Rightarrow> st))
            else st)
         in
         if \<not> dry_run \<and> exists (s_fs st1) dst_path then
           st1\<lparr>directories_to_update := directories_to_update st1 @ [(src_path, dst_path)]\<rparr>
         else st1)
      else
        (if should_copy fs src_path dst_path time_tolerance then
           (if dry_run then st\<lparr>copied_count := copied_count st + 1\<rparr>
            else
              (case (if \<not> exists fs (butlast dst_path)
                     then mkdir_parents now fs (butlast dst_path) else Inr fs) of
                 Inl e \<Rightarrow> st\<lparr>failed_copies := failed_copies st + 1\<rparr>
               | Inr fs1 \<Rightarrow>
                   (case copy_with_metadata now fs1 src_path dst_path of
                      (None, fs2) \<Rightarrow> st\<lparr>s_fs := fs2, copied_count := copied_count st + 1\<rparr>
                    | (Some e, fs2) \<Rightarrow> st\<lparr>s_fs := fs2, failed_copies := failed_copies st + 1\<rparr>)))
         else st))"

definition copy_phase ::
  "real \<Rightarrow> bool \<Rightarrow> path \<Rightarrow> path \<Rightarrow> real \<Rightarrow> node \<Rightarrow> path list \<Rightarrow> sync_state" where
  "copy_phase now dry_run source destination time_tolerance fs source_paths =
     fold (\<lambda>rel_path st. copy_step now dry_run source destination time_tolerance st rel_path)
          (sort source_paths)
          \<lparr>s_fs = fs, copied_count = 0, created_dirs = 0, failed_copies = 0,
           directories_to_update = []\<rparr>"

subsection \<open>\<^verbatim>\<open>sync_directories\<close>: the metadata pass\<close>

definition fixup_dir :: "node \<Rightarrow> path \<times> path \<Rightarrow> node" where
  "fixup_dir fs sd =
     (case sd of (src_path, dst_path) \<Rightarrow>
        (case os_stat fs src_path of
           Inl e \<Rightarrow> fs
         | Inr src_stat \<Rightarrow>
             (case chmod fs dst_path (sr_mode src_stat) of
                Inl e \<Rightarrow> fs
              | Inr fs1 \<Rightarrow>
                  (case os_utime fs1 dst_path (sr_atime src_stat) (sr_mtime src_stat) of
                     Inl e \<Rightarrow> fs1
                   | Inr fs2 \<Rightarrow> fs2))))"

definition fixup_phase :: "bool \<Rightarrow> path \<Rightarrow> path \<Rightarrow> node \<Rightarrow> (path \<times> path) list \<Rightarrow> node" where
  "fixup_phase dry_run source destination fs dirs =
     (let fs1 = (if \<not> dry_run \<and> dirs \<noteq> [] then fold (\<lambda>sd f. fixup_dir f sd) dirs fs else fs)
      in if \<not> dry_run \<and> exists fs1 destination then fixup_dir fs1 (source, destination)
         else fs1)"

subsection \<open>\<^verbatim>\<open>sync_directories\<close>\<close>

text \<open>
  The result is \<^verbatim>\<open>sys.exit(1)\<close> or the four counters
  \<^verbatim>\<open>(created_dirs, copied_files, deleted_items, failed_copies)\<close>, and the file system
  after the call.  \<open>now\<close> is the clock of the run.  \<^verbatim>\<open>exclude_patterns\<close> is a list;
  \<^verbatim>\<open>None\<close> and the empty set are the empty list, which the script treats alike.
\<close>

datatype exit = SystemExit nat

definition sync_directories ::
  "real \<Rightarrow> node \<Rightarrow> path \<Rightarrow> path \<Rightarrow> bool \<Rightarrow> string list \<Rightarrow> real
     \<Rightarrow> (exit + nat \<times> nat \<times> nat \<times> nat) \<times> node" where
  "sync_directories now fs source destination dry_run exclude_patterns time_tolerance =
     (if \<not> exists fs source then (Inl (SystemExit 1), fs)
      else if \<not> is_dir fs source then (Inl (SystemExit 1), fs)
      else if destination = source then (Inl (SystemExit 1), fs)
      else if is_path_inside destination source then (Inl (SystemExit 1), fs)
      else if is_path_inside source destination then (Inl (SystemExit 1), fs)
      else
        (case (if \<not> exists fs destination \<and> \<not> dry_run
               then mkdir_parents now fs destination else Inr fs) of
           Inl e \<Rightarrow> (Inl (SystemExit 1), fs)
         | Inr fs0 \<Rightarrow>
             (let source_paths0 = get_relative_paths fs0 source;
                  dest_paths = (if exists fs0 destination
                                then get_relative_paths fs0 destination else []);
                  source_paths = filter_source exclude_patterns source_paths0;
                  to_delete = paths_to_delete dest_paths source_paths;
                  del = delete_phase dry_run destination fs0 to_delete;
                  st = copy_phase now dry_run source destination time_tolerance
                         (fst del) source_paths;
                  fs3 = fixup_phase dry_run source destination (s_fs st)
                          (directories_to_update st)
              in (Inr (created_dirs st, copied_count st, snd del, failed_copies st), fs3))))"

section \<open>Properties\<close>

subsection \<open>Substrings and string forms\<close>

lemma is_substring_sublist: "is_substring pat s = sublist pat s"
  by (induction s) (auto simp: sublist_Cons_right)

lemma is_substring_iff: "is_substring pat s \<longleftrightarrow> (\<exists>u v. s = u @ pat @ v)"
  by (simp add: is_substring_sublist sublist_def)

lemma str_path_append:
  "p \<noteq> [] \<Longrightarrow> r \<noteq> [] \<Longrightarrow> str_path (p @ r) = str_path p @ ''/'' @ str_path r"
proof (induction p rule: str_path.induct)
  case 1
  then show ?case by simp
next
  case (2 x)
  then show ?case by (cases r) auto
next
  case (3 x y p)
  then show ?case by simp
qed

subsection \<open>Example file systems\<close>

text \<open>The definitions unfolded to evaluate a call on a concrete file system.\<close>

lemmas fs_defs = get_relative_paths_def walk_step_def scandir_def is_dir_def exists_def
  stat_node_def realpath_def is_symlink_def set_add_def link_dest_def os_lstat_def os_stat_def
  os_readlink_def parent_error_def os_unlink_def os_rmdir_def os_mkdir_def os_symlink_def
  os_utime_def chmod_def shutil_copy2_def new_dir_def new_link_def stat_of_def

definition dir_attrs :: attrs where
  "dir_attrs = \<lparr>st_mode = 493, st_atime = 0, st_mtime = 0\<rparr>"

definition fs_same_size :: node where
  "fs_same_size = Dir 4096 dir_attrs
     [(''s'', Dir 4096 dir_attrs [(''f'', File ''ab'' \<lparr>st_mode = 420, st_atime = 0, st_mtime = 10\<rparr>)]),
      (''t'', Dir 4096 dir_attrs [(''f'', File ''cd'' \<lparr>st_mode = 420, st_atime = 0, st_mtime = 11\<rparr>)])]"

definition fs_no_source :: node where
  "fs_no_source = Dir 4096 dir_attrs [(''t'', Dir 4096 dir_attrs [(''f'', File ''cd'' dir_attrs)])]"

subsection \<open>The copy decision\<close>

text \<open>
  Claim C5 (size/time tolerance law).  When the destination exists, is not a symbolic
  link, and both \<^verbatim>\<open>lstat\<close> calls succeed, \<open>should_copy\<close> is true exactly when the
  sizes differ or the modification times are more than the tolerance apart.  So equal
  sizes with times within the tolerance give false, a size that differs by one byte
  gives true, and times more than the tolerance apart give true.
\<close>

theorem should_copy_law:
  assumes "exists fs dst" and "\<not> is_symlink fs dst"
    and "os_lstat fs src = Inr s" and "os_lstat fs dst = Inr d"
  shows "(should_copy fs src dst t \<longleftrightarrow> sr_size s \<noteq> sr_size d \<or> \<bar>sr_mtime s - sr_mtime d\<bar> > t)
       \<and> (sr_size s = sr_size d \<and> \<bar>sr_mtime s - sr_mtime d\<bar> \<le> t \<longrightarrow> \<not> should_copy fs src dst t)
       \<and> (sr_size s = sr_size d + 1 \<or> sr_size d = sr_size s + 1 \<longrightarrow> should_copy fs src dst t)
       \<and> (\<bar>sr_mtime s - sr_mtime d\<bar> > t \<longrightarrow> should_copy fs src dst t)"
  using assms by (auto simp: should_copy_def)

theorem should_copy_law_witness:
  "exists fs_same_size [''t'', ''f''] \<and> \<not> is_symlink fs_same_size [''t'', ''f'']
   \<and> os_lstat fs_same_size [''s'', ''f'']
       = Inr \<lparr>sr_mode = 420, sr_size = 2, sr_atime = 0, sr_mtime = 10\<rparr>
   \<and> os_lstat fs_same_size [''t'', ''f'']
       = Inr \<lparr>sr_mode = 420, sr_size = 2, sr_atime = 0, sr_mtime = 11\<rparr>
   \<and> \<not> should_copy fs_same_size [''s'', ''f''] [''t'', ''f''] 2
   \<and> should_copy fs_same_size [''s'', ''f''] [''t'', ''f''] (1 / 2)"
proof -
  have h1: "exists fs_same_size [''t'', ''f'']"
    by (simp add: fs_defs fs_same_size_def)
  have h2: "\<not> is_symlink fs_same_size [''t'', ''f'']"
    by (simp add: fs_defs fs_same_size_def)
  have h3: "os_lstat fs_same_size [''s'', ''f'']
       = Inr \<lparr>sr_mode = 420, sr_size = 2, sr_atime = 0, sr_mtime = 10\<rparr>"
    by (simp add: fs_defs fs_same_size_def)
  have h4: "os_lstat fs_same_size [''t'', ''f'']
       = Inr \<lparr>sr_mode = 420, sr_size = 2, sr_atime = 0, sr_mtime = 11\<rparr>"
    by (simp add: fs_defs fs_same_size_def)
  show ?thesis
    using should_copy_law [OF h1 h2 h3 h4, of 2] should_copy_law [OF h1 h2 h3 h4, of "1 / 2"]
      h1 h2 h3 h4
    by simp
qed

subsection \<open>Exclusion and difference\<close>

text \<open>
  Claim C6 (difference and exclusion).  The source paths kept are exactly those whose
  string form has no exclusion pattern as a substring (characters are compared as they
  are, so the test is case-sensitive); the destination paths are passed on as scanned;
  the deletion candidates are the destination paths that are not among the kept source
  paths.
\<close>

theorem filter_and_diff:
  "set (filter_source pats source_paths)
     = {p \<in> set source_paths. \<forall>pat \<in> set pats. \<not> (\<exists>u v. str_path p = u @ pat @ v)}
   \<and> set (paths_to_delete dest_paths (filter_source pats source_paths))
     = set dest_paths - set (filter_source pats source_paths)"
  by (auto simp: filter_source_def paths_to_delete_def excluded_def list_ex_iff is_substring_iff)

theorem filter_and_diff_witness:
  "filter_source [''.git''] [[''.git''], [''.git'', ''x''], [''a'']] = [[''a'']]
   \<and> paths_to_delete [[''.git''], [''a''], [''b'']] [[''a'']] = [[''.git''], [''b'']]
   \<and> set (filter_source [''.git''] [[''.git''], [''.git'', ''x''], [''a'']])
     = {p \<in> set [[''.git''], [''.git'', ''x''], [''a'']].
          \<forall>pat \<in> set [''.git'']. \<not> (\<exists>u v. str_path p = u @ pat @ v)}
   \<and> set (paths_to_delete [[''.git''], [''a''], [''b'']]
            (filter_source [''.git''] [[''.git''], [''.git'', ''x''], [''a'']]))
     = set [[''.git''], [''a''], [''b'']]
       - set (filter_source [''.git''] [[''.git''], [''.git'', ''x''], [''a'']])"
proof -
  have e: "filter_source [''.git''] [[''.git''], [''.git'', ''x''], [''a'']] = [[''a'']]"
    by (simp add: filter_source_def excluded_def)
  have d: "paths_to_delete [[''.git''], [''a''], [''b'']] [[''a'']] = [[''.git''], [''b'']]"
    by (simp add: paths_to_delete_def)
  note t = filter_and_diff [of "[''.git'']" "[[''.git''], [''.git'', ''x''], [''a'']]"
      "[[''.git''], [''a''], [''b'']]"]
  show ?thesis
    by (intro conjI) (rule e, rule d, rule conjunct1 [OF t], rule conjunct2 [OF t])
qed

text \<open>
  Claim C10 (exclusion is closed downwards).  When a path \<open>p\<close> is excluded, every path
  below it is excluded: the string form of \<open>p @ r\<close> is that of \<open>p\<close>, a separator and the
  string form of \<open>r\<close>.  Such a path is not among the kept source paths, so where the
  destination has it, it is a deletion candidate.
\<close>

theorem exclusion_downward_closed:
  assumes "excluded pats p" and "p \<noteq> []" and "r \<noteq> []"
  shows "excluded pats (p @ r)
       \<and> p @ r \<notin> set (filter_source pats source_paths)
       \<and> (p @ r \<in> set dest_paths \<longrightarrow>
            p @ r \<in> set (paths_to_delete dest_paths (filter_source pats source_paths)))"
proof -
  from assms(1) obtain pat where pat: "pat \<in> set pats" "is_substring pat (str_path p)"
    by (auto simp: excluded_def list_ex_iff)
  then obtain u v where "str_path p = u @ pat @ v"
    by (auto simp: is_substring_iff)
  then have "str_path (p @ r) = u @ pat @ (v @ ''/'' @ str_path r)"
    using assms(2,3) by (simp add: str_path_append)
  then have "is_substring pat (str_path (p @ r))"
    unfolding is_substring_iff by blast
  with pat(1) have e: "excluded pats (p @ r)"
    by (auto simp: excluded_def list_ex_iff)
  moreover from pat(1) have "pats \<noteq> []" by auto
  ultimately show ?thesis
    by (auto simp: filter_source_def paths_to_delete_def)
qed

theorem exclusion_downward_closed_witness:
  "excluded [''.git''] [''.git''] \<and> excluded [''.git''] ([''.git''] @ [''x''])
   \<and> [''.git''] @ [''x''] \<in> set (paths_to_delete [[''.git'', ''x'']]
        (filter_source [''.git''] [[''.git'', ''x''], [''a'']]))"
proof -
  have h: "excluded [''.git''] [''.git'']"
    by (simp add: excluded_def)
  show ?thesis
    using exclusion_downward_closed [OF h, of "[''x'']" "[[''.git'', ''x''], [''a'']]"
        "[[''.git'', ''x'']]"] h
    by simp
qed

subsection \<open>Validation\<close>

text \<open>
  Claim C9 (validation before any effect).  When the source does not exist, is not a
  directory, or one of source and destination is a prefix of the other (equal paths
  included), \<open>sync_directories\<close> exits with code 1 and the file system is the one it
  was given.
\<close>

theorem validation_exits:
  assumes "\<not> exists fs source \<or> \<not> is_dir fs source
           \<or> prefix source destination \<or> prefix destination source"
  shows "sync_directories now fs source destination dry_run pats tol = (Inl (SystemExit 1), fs)"
  using assms
  by (auto simp: sync_directories_def is_path_inside_def relative_to_def)

theorem validation_exits_witness:
  "\<not> exists fs_no_source [''s'']
   \<and> sync_directories 0 fs_no_source [''s''] [''t''] False [] 2 = (Inl (SystemExit 1), fs_no_source)
   \<and> sync_directories 0 fs_same_size [''s''] [''s'', ''f''] False [] 2
       = (Inl (SystemExit 1), fs_same_size)"
proof -
  have h: "\<not> exists fs_no_source [''s'']"
    by (simp add: fs_defs fs_no_source_def)
  have p: "prefix [''s''] [''s'', ''f'']"
    by simp
  show ?thesis
    using validation_exits [of fs_no_source "[''s'']" "[''t'']" 0 False "[]" 2]
      validation_exits [of fs_same_size "[''s'']" "[''s'', ''f'']" 0 False "[]" 2] h p
    by simp
qed

subsection \<open>The order of the delete loop\<close>

text \<open>
  Claim C7 (deepest first).  The delete loop runs over the candidates sorted by
  non-increasing number of components.  A candidate \<open>p\<close> with more components than a
  candidate \<open>q\<close> is in the list before \<open>q\<close>, and the loop applies the step for \<open>p\<close> before
  the step for \<open>q\<close>.  A proper ancestor has fewer components, so every candidate is
  attempted before its ancestors.
\<close>

theorem deletion_order:
  assumes "p \<in> set to_delete" and "q \<in> set to_delete" and "length q < length p"
  shows "sorted_wrt (\<lambda>a b. length b \<le> length a) (sorted_deletes to_delete)
       \<and> set (sorted_deletes to_delete) = set to_delete
       \<and> (\<exists>pre mid post.
            sorted_deletes to_delete = pre @ p # mid @ q # post
            \<and> delete_phase dry_run destination fs to_delete
                = fold (\<lambda>rel_path st. delete_step dry_run destination st rel_path) (q # post)
                    (fold (\<lambda>rel_path st. delete_step dry_run destination st rel_path)
                       (pre @ p # mid) (fs, 0)))"
proof -
  let ?ds = "sorted_deletes to_delete"
  let ?f = "\<lambda>p::path. - int (length p)"
  have srt: "sorted (map ?f ?ds)"
    by (simp add: sorted_deletes_def)
  have st: "set ?ds = set to_delete"
    by (simp add: sorted_deletes_def)
  have sw: "sorted_wrt (\<lambda>a b. length b \<le> length a) ?ds"
    using srt by (simp add: sorted_map)
  from assms(1) st obtain xs ys where xy: "?ds = xs @ p # ys"
    by (metis split_list)
  have "q \<notin> set xs"
  proof
    assume "q \<in> set xs"
    with sw xy have "length p \<le> length q"
      by (auto simp: sorted_wrt_append)
    with assms(3) show False by simp
  qed
  moreover have "q \<noteq> p" using assms(3) by auto
  ultimately have "q \<in> set ys"
    using assms(2) st xy by auto
  then obtain mid post where ys: "ys = mid @ q # post"
    by (metis split_list)
  have "?ds = xs @ p # mid @ q # post"
    by (simp add: xy ys)
  moreover have "delete_phase dry_run destination fs to_delete
      = fold (\<lambda>rel_path st. delete_step dry_run destination st rel_path) (q # post)
          (fold (\<lambda>rel_path st. delete_step dry_run destination st rel_path)
             (xs @ p # mid) (fs, 0))"
    unfolding delete_phase_def xy ys by simp
  ultimately show ?thesis
    using sw st by blast
qed

theorem deletion_order_witness:
  "sorted_deletes [[''a''], [''a'', ''b'']] = [[''a'', ''b''], [''a'']]
   \<and> (\<exists>pre mid post.
        sorted_deletes [[''a''], [''a'', ''b'']] = pre @ [''a'', ''b''] # mid @ [''a''] # post
        \<and> delete_phase False [''t''] fs_same_size [[''a''], [''a'', ''b'']]
            = fold (\<lambda>rel_path st. delete_step False [''t''] st rel_path) ([''a''] # post)
                (fold (\<lambda>rel_path st. delete_step False [''t''] st rel_path)
                   (pre @ [''a'', ''b''] # mid) (fs_same_size, 0)))"
proof -
  have e: "sorted_deletes [[''a''], [''a'', ''b'']] = [[''a'', ''b''], [''a'']]"
    by (simp add: sorted_deletes_def)
  show ?thesis
    using deletion_order [of "[''a'', ''b'']" "[[''a''], [''a'', ''b'']]" "[''a'']"
        False "[''t'']" fs_same_size] e
    by simp
qed

subsection \<open>A dry run changes nothing\<close>

lemma delete_step_dry_fs: "fst (delete_step True destination st p) = fst st"
  by (cases st) (simp add: delete_step_def Let_def)

lemma delete_dry_fs:
  "fst (fold (\<lambda>rel_path st. delete_step True destination st rel_path) xs st) = fst st"
  by (induction xs arbitrary: st) (simp_all add: delete_step_dry_fs)

lemma copy_step_dry_fs:
  "s_fs (copy_step now True source destination tol st p) = s_fs st"
  by (simp add: copy_step_def Let_def)

lemma copy_dry_fs:
  "s_fs (fold (\<lambda>rel_path st. copy_step now True source destination tol st rel_path) xs st) = s_fs st"
  by (induction xs arbitrary: st) (simp_all add: copy_step_dry_fs)

lemma dry_run_fs:
  "snd (sync_directories now fs source destination True pats tol) = fs"
  by (simp add: sync_directories_def Let_def delete_phase_def copy_phase_def fixup_phase_def
      delete_dry_fs copy_dry_fs)

subsection \<open>What the scan returns\<close>

declare follow.simps [simp del] os_walk.simps [simp del] mkdir_parents.simps [simp del]

lemma follow_not_link:
  "\<not> is_symlink fs p \<Longrightarrow> follow k fs p = Some p"
  by (subst follow.simps) (auto simp: is_symlink_def split: option.splits node.splits)

lemma stat_node_not_link:
  "\<not> is_symlink fs p \<Longrightarrow>
   stat_node fs p = (case lookup fs p of None \<Rightarrow> Inl ENOENT | Some n \<Rightarrow> Inr n)"
  by (simp add: stat_node_def realpath_def follow_not_link)

lemma lookup_Dir_is_dir:
  "lookup fs p = Some (Dir sz a es) \<Longrightarrow> is_dir fs p \<and> \<not> is_symlink fs p \<and> exists fs p"
  by (simp add: is_dir_def exists_def stat_node_not_link is_symlink_def)

lemma is_dir_not_link_Dir:
  "is_dir fs p \<Longrightarrow> \<not> is_symlink fs p \<Longrightarrow> \<exists>sz a es. lookup fs p = Some (Dir sz a es)"
  by (auto simp: is_dir_def stat_node_not_link split: option.splits elim: is_Dir.elims)

lemma real_dir_iff:
  "is_dir fs p \<and> \<not> is_symlink fs p \<longleftrightarrow> (\<exists>sz a es. lookup fs p = Some (Dir sz a es))"
  using lookup_Dir_is_dir is_dir_not_link_Dir by blast

lemma lookup_child:
  "lookup fs p = Some (Dir sz a es) \<Longrightarrow> lookup fs (p @ x # q) =
     (case map_of es x of None \<Rightarrow> None | Some c \<Rightarrow> lookup c q)"
  by (simp add: lookup_append)

lemma lookup_not_Dir_Cons:
  "\<forall>sz a es. n \<noteq> Dir sz a es \<Longrightarrow> lookup n (x # q) = None"
  by (cases n) auto

lemma lookup_below_not_Dir:
  "\<forall>sz a es. lookup fs p \<noteq> Some (Dir sz a es) \<Longrightarrow> q \<noteq> [] \<Longrightarrow> lookup fs (p @ q) = None"
  by (cases q; cases "lookup fs p") (auto simp: lookup_append lookup_not_Dir_Cons)

definition walk_triple :: "node \<Rightarrow> path \<Rightarrow> path \<times> string list \<times> string list" where
  "walk_triple fs d =
     (case scandir fs d of
        Inl e \<Rightarrow> (d, [], [])
      | Inr names \<Rightarrow> (d, filter (\<lambda>n. is_dir fs (d @ [n])) names,
                         filter (\<lambda>n. \<not> is_dir fs (d @ [n])) names))"

lemma os_walk_set:
  "set (os_walk fs tp)
     = {walk_triple fs (tp @ d) | d. \<exists>sz a es. lookup fs (tp @ d) = Some (Dir sz a es)}"
proof (induction fs tp rule: os_walk.induct)
  case (1 fs tp)
  show ?case
  proof (cases "\<exists>sz a es. lookup fs tp = Some (Dir sz a es)")
    case False
    then have "os_walk fs tp = []"
      by (subst os_walk.simps) (auto simp: scandir_def split: option.splits node.splits)
    moreover have "\<And>d. \<forall>sz a es. lookup fs (tp @ d) \<noteq> Some (Dir sz a es)"
    proof -
      fix d show "\<forall>sz a es. lookup fs (tp @ d) \<noteq> Some (Dir sz a es)"
        using False lookup_below_not_Dir [of fs tp d] by (cases "d = []") auto
    qed
    ultimately show ?thesis by simp
  next
    case True
    then obtain sz a es where l: "lookup fs tp = Some (Dir sz a es)" by blast
    then have sc: "scandir fs tp = Inr (map fst es)"
      by (simp add: scandir_def)
    let ?sub = "filter (\<lambda>d. \<not> is_symlink fs (tp @ [d]))
                  (filter (\<lambda>n. is_dir fs (tp @ [n])) (map fst es))"
    have w: "os_walk fs tp = walk_triple fs tp # concat (map (\<lambda>d. os_walk fs (tp @ [d])) ?sub)"
      by (subst os_walk.simps) (simp add: sc walk_triple_def)
    have IH: "\<And>n. n \<in> set ?sub \<Longrightarrow> set (os_walk fs (tp @ [n]))
        = {walk_triple fs ((tp @ [n]) @ d) | d.
             \<exists>sz a es. lookup fs ((tp @ [n]) @ d) = Some (Dir sz a es)}"
      using "1.IH" [OF sc] by blast
    have sub: "\<And>n. n \<in> set ?sub \<longleftrightarrow> (\<exists>sz a es. lookup fs (tp @ [n]) = Some (Dir sz a es))"
    proof -
      fix n
      show "n \<in> set ?sub \<longleftrightarrow> (\<exists>sz a es. lookup fs (tp @ [n]) = Some (Dir sz a es))"
      proof
        assume "n \<in> set ?sub"
        then show "\<exists>sz a es. lookup fs (tp @ [n]) = Some (Dir sz a es)"
          using is_dir_not_link_Dir by auto
      next
        assume d: "\<exists>sz a es. lookup fs (tp @ [n]) = Some (Dir sz a es)"
        then have "map_of es n \<noteq> None"
          using lookup_child [OF l, of n "[]"] by (auto split: option.splits)
        then have "n \<in> set (map fst es)"
          by (metis map_of_eq_None_iff set_map)
        with d show "n \<in> set ?sub"
          using lookup_Dir_is_dir by auto
      qed
    qed
    show ?thesis
    proof (intro set_eqI iffI)
      fix t assume "t \<in> set (os_walk fs tp)"
      then consider "t = walk_triple fs tp"
        | n where "n \<in> set ?sub" "t \<in> set (os_walk fs (tp @ [n]))"
        unfolding w by auto
      then show "t \<in> {walk_triple fs (tp @ d) | d.
            \<exists>sz a es. lookup fs (tp @ d) = Some (Dir sz a es)}"
      proof cases
        case 1
        then show ?thesis using l by (auto intro: exI [of _ "[]"])
      next
        case (2 n)
        then obtain d where "t = walk_triple fs ((tp @ [n]) @ d)"
          "\<exists>sz a es. lookup fs ((tp @ [n]) @ d) = Some (Dir sz a es)"
          using IH by blast
        then show ?thesis by (auto intro: exI [of _ "n # d"])
      qed
    next
      fix t assume "t \<in> {walk_triple fs (tp @ d) | d.
            \<exists>sz a es. lookup fs (tp @ d) = Some (Dir sz a es)}"
      then obtain d where t: "t = walk_triple fs (tp @ d)"
        and d: "\<exists>sz a es. lookup fs (tp @ d) = Some (Dir sz a es)" by blast
      show "t \<in> set (os_walk fs tp)"
      proof (cases d)
        case Nil
        then show ?thesis using t w by simp
      next
        case (Cons n d')
        have "\<exists>sz a es. lookup fs (tp @ [n]) = Some (Dir sz a es)"
        proof (rule ccontr)
          assume "\<not> ?thesis"
          then have "d' \<noteq> [] \<Longrightarrow> lookup fs ((tp @ [n]) @ d') = None"
            using lookup_below_not_Dir [of fs "tp @ [n]" d'] by blast
          with d Cons \<open>\<not> ?thesis\<close> show False by (cases "d' = []") auto
        qed
        then have n: "n \<in> set ?sub" using sub by blast
        have "t \<in> set (os_walk fs (tp @ [n]))"
          unfolding IH [OF n] using t d Cons by auto
        with n show ?thesis unfolding w by auto
      qed
    qed
  qed
qed


lemma set_set_add [simp]: "set (set_add x xs) = insert x (set xs)"
  by (auto simp: set_add_def)

lemma distinct_set_add [simp]: "distinct (set_add x xs) = distinct xs"
  by (auto simp: set_add_def)

lemma set_fold_set_add:
  "set (fold (\<lambda>x acc. set_add (f x) acc) xs acc) = f ` set xs \<union> set acc"
  by (induction xs arbitrary: acc) auto

lemma distinct_fold_set_add:
  "distinct (fold (\<lambda>x acc. set_add (f x) acc) xs acc) = distinct acc"
  by (induction xs arbitrary: acc) auto

definition triple_paths :: "path \<Rightarrow> path \<times> string list \<times> string list \<Rightarrow> path set" where
  "triple_paths scan_root triple =
     (case triple of (dirpath, dirnames, filenames) \<Rightarrow>
        (if drop (length scan_root) dirpath \<noteq> [] then {drop (length scan_root) dirpath} else {})
        \<union> (\<lambda>f. drop (length scan_root) dirpath @ [f]) ` set filenames)"

lemma set_walk_step:
  "set (walk_step scan_root paths triple) = triple_paths scan_root triple \<union> set paths"
  by (cases triple) (auto simp: walk_step_def triple_paths_def Let_def set_fold_set_add)

lemma distinct_walk_step:
  "distinct (walk_step scan_root paths triple) = distinct paths"
  by (cases triple) (simp add: walk_step_def Let_def distinct_fold_set_add)

lemma set_fold_walk_step:
  "set (fold (\<lambda>triple acc. walk_step scan_root acc triple) ts acc)
     = (\<Union>t \<in> set ts. triple_paths scan_root t) \<union> set acc"
  by (induction ts arbitrary: acc) (auto simp: set_walk_step)

lemma distinct_fold_walk_step:
  "distinct (fold (\<lambda>triple acc. walk_step scan_root acc triple) ts acc) = distinct acc"
  by (induction ts arbitrary: acc) (auto simp: distinct_walk_step)

lemma distinct_get_relative_paths: "distinct (get_relative_paths fs scan_root)"
  by (simp add: get_relative_paths_def distinct_fold_walk_step)

lemma set_get_relative_paths:
  "set (get_relative_paths fs scan_root)
     = (\<Union>d \<in> {d. \<exists>sz a es. lookup fs (scan_root @ d) = Some (Dir sz a es)}.
          triple_paths scan_root (walk_triple fs (scan_root @ d)))"
proof -
  have "set (get_relative_paths fs scan_root)
      = (\<Union>t \<in> set (os_walk fs scan_root). triple_paths scan_root t)"
    by (simp add: get_relative_paths_def set_fold_walk_step)
  also have "\<dots> = (\<Union>t \<in> {walk_triple fs (scan_root @ d) | d.
        \<exists>sz a es. lookup fs (scan_root @ d) = Some (Dir sz a es)}. triple_paths scan_root t)"
    by (simp only: os_walk_set)
  also have "\<dots> = (\<Union>d \<in> {d. \<exists>sz a es. lookup fs (scan_root @ d) = Some (Dir sz a es)}.
          triple_paths scan_root (walk_triple fs (scan_root @ d)))"
    by blast
  finally show ?thesis .
qed

lemma triple_paths_walk_triple:
  assumes "lookup fs (scan_root @ d) = Some (Dir sz a es)"
  shows "triple_paths scan_root (walk_triple fs (scan_root @ d))
     = (if d \<noteq> [] then {d} else {})
       \<union> {d @ [f] | f. f \<in> fst ` set es \<and> \<not> is_dir fs (scan_root @ d @ [f])}"
  using assms by (auto simp: triple_paths_def walk_triple_def scandir_def)

lemma in_names_lookup:
  assumes "lookup fs p = Some (Dir sz a es)"
  shows "f \<in> fst ` set es \<longleftrightarrow> lookup fs (p @ [f]) \<noteq> None"
proof -
  have "lookup fs (p @ [f]) = map_of es f"
    using lookup_child [OF assms, of f "[]"] by (auto split: option.splits)
  then show ?thesis
    by (metis map_of_eq_None_iff)
qed

text \<open>
  What the scan returns: the paths below the scan root at which there is an entry,
  except the links that lead to a directory.
\<close>

lemma scan_iff:
  "p \<in> set (get_relative_paths fs scan_root)
     \<longleftrightarrow> p \<noteq> [] \<and> (\<exists>n. lookup fs (scan_root @ p) = Some n
                          \<and> (is_Dir n \<or> \<not> is_dir fs (scan_root @ p)))"
proof
  assume "p \<in> set (get_relative_paths fs scan_root)"
  then obtain d sz a es where d: "lookup fs (scan_root @ d) = Some (Dir sz a es)"
    and p: "p \<in> triple_paths scan_root (walk_triple fs (scan_root @ d))"
    unfolding set_get_relative_paths by blast
  from p consider "p = d" "d \<noteq> []"
    | f where "p = d @ [f]" "f \<in> fst ` set es" "\<not> is_dir fs (scan_root @ d @ [f])"
    unfolding triple_paths_walk_triple [OF d] by (auto split: if_splits)
  then show "p \<noteq> [] \<and> (\<exists>n. lookup fs (scan_root @ p) = Some n
                          \<and> (is_Dir n \<or> \<not> is_dir fs (scan_root @ p)))"
  proof cases
    case 1
    then show ?thesis using d by simp
  next
    case (2 f)
    then have "lookup fs (scan_root @ p) \<noteq> None"
      using in_names_lookup [OF d, of f] by simp
    with 2 show ?thesis by auto
  qed
next
  assume r: "p \<noteq> [] \<and> (\<exists>n. lookup fs (scan_root @ p) = Some n
                          \<and> (is_Dir n \<or> \<not> is_dir fs (scan_root @ p)))"
  then obtain n where n: "lookup fs (scan_root @ p) = Some n"
    and k: "is_Dir n \<or> \<not> is_dir fs (scan_root @ p)" and ne: "p \<noteq> []" by blast
  show "p \<in> set (get_relative_paths fs scan_root)"
  proof (cases "is_Dir n")
    case True
    then obtain sz a es where "n = Dir sz a es" by (cases n) auto
    with n have d: "lookup fs (scan_root @ p) = Some (Dir sz a es)" by simp
    have "p \<in> triple_paths scan_root (walk_triple fs (scan_root @ p))"
      unfolding triple_paths_walk_triple [OF d] using ne by simp
    with d show ?thesis
      unfolding set_get_relative_paths by blast
  next
    case False
    with k have nd: "\<not> is_dir fs (scan_root @ p)" by simp
    obtain d f where p: "p = d @ [f]"
      using ne by (metis append_butlast_last_id)
    have "\<exists>sz a es. lookup fs (scan_root @ d) = Some (Dir sz a es)"
    proof (rule ccontr)
      assume "\<not> ?thesis"
      then have "lookup fs ((scan_root @ d) @ [f]) = None"
        using lookup_below_not_Dir [of fs "scan_root @ d" "[f]"] by blast
      with n p show False by simp
    qed
    then obtain sz a es where d: "lookup fs (scan_root @ d) = Some (Dir sz a es)" by blast
    have "f \<in> fst ` set es"
      using in_names_lookup [OF d, of f] n p by simp
    with nd p have "p \<in> triple_paths scan_root (walk_triple fs (scan_root @ d))"
      unfolding triple_paths_walk_triple [OF d] by auto
    with d show ?thesis
      unfolding set_get_relative_paths by blast
  qed
qed

definition fs_dir_link :: node where
  "fs_dir_link = Dir 4096 dir_attrs
     [(''s'', Dir 4096 dir_attrs [(''d'', Dir 4096 dir_attrs []), (''l'', Link ''d'' dir_attrs)])]"

text \<open>
  Claim C4 (the scanner and symbolic links).  The claim says the scan returns every
  directory, file and link below the root, links to directories included.  The code
  takes its files from the third component of what \<^verbatim>\<open>os.walk\<close> yields, and
  \<^verbatim>\<open>os.walk\<close> puts a link to a directory into the second, the directory names, without
  walking into it: such a link is in no result.  Here the root \<^verbatim>\<open>s\<close> holds a directory
  \<^verbatim>\<open>d\<close> and a link \<^verbatim>\<open>l\<close> to it, and the scan returns \<^verbatim>\<open>d\<close> alone.
\<close>

theorem scan_misses_dir_symlink:
  "get_relative_paths fs_dir_link [''s''] = [[''d'']]
   \<and> os_readlink fs_dir_link [''s'', ''l''] = Inr ''d''
   \<and> is_symlink fs_dir_link [''s'', ''l'']
   \<and> [''l''] \<notin> set (get_relative_paths fs_dir_link [''s''])"
  by (simp add: fs_defs fs_dir_link_def follow.simps os_walk.simps)


subsection \<open>What a dry run reports\<close>

lemma scanned_lexists:
  assumes "p \<in> set (get_relative_paths fs scan_root)"
  shows "exists fs (scan_root @ p) \<or> is_symlink fs (scan_root @ p)"
proof (cases "is_symlink fs (scan_root @ p)")
  case False
  from assms obtain n where "lookup fs (scan_root @ p) = Some n"
    unfolding scan_iff by blast
  with False show ?thesis
    by (simp add: exists_def stat_node_not_link)
qed simp

lemma delete_dry_fold:
  "fold (\<lambda>rel_path st. delete_step True destination st rel_path) xs (fs, n)
     = (fs, n + length (filter (\<lambda>p. exists fs (destination @ p)
                                    \<or> is_symlink fs (destination @ p)) xs))"
  by (induction xs arbitrary: n) (auto simp: delete_step_def Let_def)

definition src_is_dir :: "node \<Rightarrow> path \<Rightarrow> path \<Rightarrow> bool" where
  "src_is_dir fs source p = (is_dir fs (source @ p) \<and> \<not> is_symlink fs (source @ p))"

lemma copy_step_dry:
  "copy_step now True source destination tol st p =
     st\<lparr>copied_count := copied_count st
           + (if \<not> src_is_dir (s_fs st) source p
                 \<and> should_copy (s_fs st) (source @ p) (destination @ p) tol then 1 else 0),
        created_dirs := created_dirs st
           + (if src_is_dir (s_fs st) source p \<and> \<not> exists (s_fs st) (destination @ p)
              then 1 else 0)\<rparr>"
  by (simp add: copy_step_def Let_def src_is_dir_def)

lemma copy_dry_fold:
  "fold (\<lambda>rel_path st. copy_step now True source destination tol st rel_path) xs st =
     st\<lparr>copied_count := copied_count st
           + length (filter (\<lambda>p. \<not> src_is_dir (s_fs st) source p
                 \<and> should_copy (s_fs st) (source @ p) (destination @ p) tol) xs),
        created_dirs := created_dirs st
           + length (filter (\<lambda>p. src_is_dir (s_fs st) source p
                 \<and> \<not> exists (s_fs st) (destination @ p)) xs)\<rparr>"
proof (induction xs arbitrary: st)
  case Nil
  then show ?case by simp
next
  case (Cons x xs)
  let ?F = "\<lambda>rel_path st. copy_step now True source destination tol st rel_path"
  let ?st = "copy_step now True source destination tol st x"
  have "fold ?F (x # xs) st = fold ?F xs ?st"
    by simp
  also have "\<dots> = ?st\<lparr>copied_count := copied_count ?st
           + length (filter (\<lambda>p. \<not> src_is_dir (s_fs ?st) source p
                 \<and> should_copy (s_fs ?st) (source @ p) (destination @ p) tol) xs),
        created_dirs := created_dirs ?st
           + length (filter (\<lambda>p. src_is_dir (s_fs ?st) source p
                 \<and> \<not> exists (s_fs ?st) (destination @ p)) xs)\<rparr>"
    by (rule Cons.IH)
  also have "\<dots> = st\<lparr>copied_count := copied_count st
           + length (filter (\<lambda>p. \<not> src_is_dir (s_fs st) source p
                 \<and> should_copy (s_fs st) (source @ p) (destination @ p) tol) (x # xs)),
        created_dirs := created_dirs st
           + length (filter (\<lambda>p. src_is_dir (s_fs st) source p
                 \<and> \<not> exists (s_fs st) (destination @ p)) (x # xs))\<rparr>"
    by (simp add: copy_step_dry)
  finally show ?case .
qed

lemma length_filter_sort_key: "length (filter P (sort_key f xs)) = length (filter P xs)"
  by (simp add: filter_sort)

lemma length_filter_card:
  "distinct xs \<Longrightarrow> length (filter P xs) = card {x \<in> set xs. P x}"
  by (metis distinct_card distinct_filter set_filter)

lemma distinct_filter_source:
  "distinct xs \<Longrightarrow> distinct (filter_source pats xs)"
  by (simp add: filter_source_def)

lemmas sync_defs = sync_directories_def is_path_inside_def relative_to_def filter_source_def
  excluded_def paths_to_delete_def sorted_deletes_def delete_phase_def delete_step_def
  copy_phase_def copy_step_def fixup_phase_def fixup_dir_def should_copy_def
  copy_with_metadata_def

lemmas eval_defs = fs_defs follow.simps os_walk.simps mkdir_parents.simps

definition fs_extra :: node where
  "fs_extra = Dir 4096 dir_attrs
     [(''s'', Dir 4096 dir_attrs [(''f'', File ''ab'' dir_attrs)]),
      (''t'', Dir 4096 dir_attrs [(''g'', File ''zz'' dir_attrs)])]"

definition fs_no_dest :: node where
  "fs_no_dest = Dir 4096 dir_attrs
     [(''s'', Dir 4096 dir_attrs [(''f'', File ''ab'' dir_attrs)])]"

definition fs_kind_conflict :: node where
  "fs_kind_conflict = Dir 4096 dir_attrs
     [(''s'', Dir 4096 dir_attrs [(''a'', Dir 4096 dir_attrs [])]),
      (''t'', Dir 4096 dir_attrs [(''a'', File ''x'' dir_attrs)])]"

definition fs_dest_link :: node where
  "fs_dest_link = Dir 4096 dir_attrs
     [(''s'', Dir 4096 dir_attrs [(''a'', Dir 4096 dir_attrs [])]),
      (''t'', Dir 4096 dir_attrs [(''a'', Link ''.'' dir_attrs)])]"

text \<open>
  Claim C8 (a dry run changes nothing).  For every input the file system after a dry
  run is the one before it: no destination root is made and no metadata is set.  The
  run exits with code 1 when the source is missing or is no directory, or when one of
  source and destination is a prefix of the other; for every other input it returns
  counters, and they are the numbers of operations the script plans by its own tests:
  the kept source directories with nothing at their destination path, the kept source
  files and links for which \<open>should_copy\<close> holds, the scanned destination paths that
  are not kept source paths, and no failure.  So the counters are nonzero exactly when
  one of these tests finds something to do.  As the claim states it, "whenever source
  and destination differ", it fails: for a kept source directory the only test is
  whether anything exists at the destination path, so a regular file there, or a link
  to a directory, is a difference with all counters zero (\<open>dry_run_silent_on_kind\<close>).
\<close>

theorem dry_run_report:
  "sync_directories now fs source destination True pats tol =
     (if exists fs source \<and> is_dir fs source
         \<and> \<not> prefix source destination \<and> \<not> prefix destination source
      then Inr (card {p \<in> set (filter_source pats (get_relative_paths fs source)).
                        src_is_dir fs source p \<and> \<not> exists fs (destination @ p)},
                card {p \<in> set (filter_source pats (get_relative_paths fs source)).
                        \<not> src_is_dir fs source p
                        \<and> should_copy fs (source @ p) (destination @ p) tol},
                card {p \<in> set (if exists fs destination
                                 then get_relative_paths fs destination else []).
                        p \<notin> set (filter_source pats (get_relative_paths fs source))},
                0)
      else Inl (SystemExit 1),
      fs)"
proof (cases "exists fs source \<and> is_dir fs source
         \<and> \<not> prefix source destination \<and> \<not> prefix destination source")
  case False
  then have "sync_directories now fs source destination True pats tol
      = (Inl (SystemExit 1), fs)"
    by (auto simp: sync_directories_def is_path_inside_def relative_to_def)
  with False show ?thesis
    by simp
next
  case True
  let ?sps = "filter_source pats (get_relative_paths fs source)"
  let ?dps = "if exists fs destination then get_relative_paths fs destination else []"
  let ?td = "paths_to_delete ?dps ?sps"
  let ?st = "copy_phase now True source destination tol fs ?sps"
  have ne: "destination \<noteq> source"
    using True by auto
  have fsd: "fst (delete_phase True destination fs ?td) = fs"
    by (simp add: delete_phase_def delete_dry_fold)
  have ok: "fst (sync_directories now fs source destination True pats tol)
      = Inr (created_dirs ?st, copied_count ?st,
             snd (delete_phase True destination fs ?td), failed_copies ?st)"
    using True ne
    by (simp add: sync_directories_def Let_def is_path_inside_def relative_to_def fsd)
  have dsps: "distinct ?sps"
    by (simp add: distinct_filter_source distinct_get_relative_paths)
  have ddps: "distinct ?dps"
    by (simp add: distinct_get_relative_paths)
  have lex: "\<And>p. p \<in> set ?td \<Longrightarrow>
      exists fs (destination @ p) \<or> is_symlink fs (destination @ p)"
    using scanned_lexists by (auto simp: paths_to_delete_def split: if_splits)
  have "snd (delete_phase True destination fs ?td) = length ?td"
  proof -
    have "filter (\<lambda>p. exists fs (destination @ p) \<or> is_symlink fs (destination @ p))
            (sorted_deletes ?td) = sorted_deletes ?td"
      using lex by (simp add: sorted_deletes_def)
    then show ?thesis
      by (simp add: delete_phase_def delete_dry_fold sorted_deletes_def)
  qed
  also have "\<dots> = card {p \<in> set ?dps. p \<notin> set ?sps}"
    unfolding paths_to_delete_def using ddps by (rule length_filter_card)
  finally have d: "snd (delete_phase True destination fs ?td)
      = card {p \<in> set ?dps. p \<notin> set ?sps}" .
  have c: "created_dirs ?st
      = card {p \<in> set ?sps. src_is_dir fs source p \<and> \<not> exists fs (destination @ p)}"
    by (simp add: copy_phase_def copy_dry_fold length_filter_sort_key
        length_filter_card [OF dsps])
  have f: "copied_count ?st
      = card {p \<in> set ?sps. \<not> src_is_dir fs source p
                \<and> should_copy fs (source @ p) (destination @ p) tol}"
    by (simp add: copy_phase_def copy_dry_fold length_filter_sort_key
        length_filter_card [OF dsps])
  have z: "failed_copies ?st = 0"
    by (simp add: copy_phase_def copy_dry_fold)
  have "fst (sync_directories now fs source destination True pats tol)
      = Inr (card {p \<in> set ?sps. src_is_dir fs source p \<and> \<not> exists fs (destination @ p)},
             card {p \<in> set ?sps. \<not> src_is_dir fs source p
                \<and> should_copy fs (source @ p) (destination @ p) tol},
             card {p \<in> set ?dps. p \<notin> set ?sps}, 0)"
    using ok c f d z by simp
  moreover have "snd (sync_directories now fs source destination True pats tol) = fs"
    by (rule dry_run_fs)
  ultimately have "sync_directories now fs source destination True pats tol
      = (Inr (card {p \<in> set ?sps. src_is_dir fs source p \<and> \<not> exists fs (destination @ p)},
             card {p \<in> set ?sps. \<not> src_is_dir fs source p
                \<and> should_copy fs (source @ p) (destination @ p) tol},
             card {p \<in> set ?dps. p \<notin> set ?sps}, 0), fs)"
    by (simp add: prod_eq_iff)
  with True show ?thesis
    by simp
qed

theorem dry_run_report_witness:
  "exists fs_extra [''s''] \<and> is_dir fs_extra [''s'']
   \<and> \<not> prefix [''s''] [''t''] \<and> \<not> prefix [''t''] [''s'']
   \<and> sync_directories 0 fs_extra [''s''] [''t''] True [] 2 = (Inr (0, 1, 1, 0), fs_extra)
   \<and> card {p \<in> set (filter_source [] (get_relative_paths fs_extra [''s''])).
             src_is_dir fs_extra [''s''] p \<and> \<not> exists fs_extra ([''t''] @ p)} = 0
   \<and> card {p \<in> set (filter_source [] (get_relative_paths fs_extra [''s''])).
             \<not> src_is_dir fs_extra [''s''] p
             \<and> should_copy fs_extra ([''s''] @ p) ([''t''] @ p) 2} = 1
   \<and> card {p \<in> set (if exists fs_extra [''t'']
                       then get_relative_paths fs_extra [''t''] else []).
             p \<notin> set (filter_source [] (get_relative_paths fs_extra [''s'']))} = 1
   \<and> \<not> exists fs_no_dest [''t'']
   \<and> sync_directories 0 fs_no_dest [''s''] [''t''] True [] 2 = (Inr (0, 1, 0, 0), fs_no_dest)"
proof -
  have s: "get_relative_paths fs_extra [''s''] = [[''f'']]"
    by (simp add: eval_defs fs_extra_def)
  have t: "get_relative_paths fs_extra [''t''] = [[''g'']]"
    by (simp add: eval_defs fs_extra_def)
  have ev: "sync_directories 0 fs_extra [''s''] [''t''] True [] 2
       = (Inr (0, 1, 1, 0), fs_extra)"
    apply (simp add: sync_defs s t)
    apply (simp add: sync_defs eval_defs fs_extra_def Let_def)
    done
  have h: "exists fs_extra [''s''] \<and> is_dir fs_extra [''s'']
      \<and> \<not> prefix [''s''] [''t''] \<and> \<not> prefix [''t''] [''s'']"
    by (simp add: eval_defs fs_extra_def)
  have s': "get_relative_paths fs_no_dest [''s''] = [[''f'']]"
    by (simp add: eval_defs fs_no_dest_def)
  have n: "\<not> exists fs_no_dest [''t'']"
    by (simp add: eval_defs fs_no_dest_def)
  have ev': "sync_directories 0 fs_no_dest [''s''] [''t''] True [] 2
       = (Inr (0, 1, 0, 0), fs_no_dest)"
    apply (simp add: sync_defs s' n)
    apply (simp add: sync_defs eval_defs fs_no_dest_def Let_def)
    done
  note r = dry_run_report [of 0 fs_extra "[''s'']" "[''t'']" "[]" 2]
  from r h ev
  have c: "card {p \<in> set (filter_source [] (get_relative_paths fs_extra [''s''])).
             src_is_dir fs_extra [''s''] p \<and> \<not> exists fs_extra ([''t''] @ p)} = 0
   \<and> card {p \<in> set (filter_source [] (get_relative_paths fs_extra [''s''])).
             \<not> src_is_dir fs_extra [''s''] p
             \<and> should_copy fs_extra ([''s''] @ p) ([''t''] @ p) 2} = 1
   \<and> card {p \<in> set (if exists fs_extra [''t'']
                       then get_relative_paths fs_extra [''t''] else []).
             p \<notin> set (filter_source [] (get_relative_paths fs_extra [''s'']))} = 1"
    by (simp only: if_True prod.inject sum.inject simp_thms)
  show ?thesis
    using h ev c n ev' by blast
qed

theorem dry_run_silent_on_kind:
  "is_dir fs_kind_conflict [''s'', ''a'']
   \<and> exists fs_kind_conflict [''t'', ''a''] \<and> \<not> is_dir fs_kind_conflict [''t'', ''a'']
   \<and> sync_directories 0 fs_kind_conflict [''s''] [''t''] True [] 2
       = (Inr (0, 0, 0, 0), fs_kind_conflict)
   \<and> \<not> is_symlink fs_dest_link [''s'', ''a''] \<and> is_symlink fs_dest_link [''t'', ''a'']
   \<and> get_relative_paths fs_dest_link [''s''] = [[''a'']]
   \<and> get_relative_paths fs_dest_link [''t''] = []
   \<and> sync_directories 0 fs_dest_link [''s''] [''t''] True [] 2
       = (Inr (0, 0, 0, 0), fs_dest_link)"
proof -
  have s: "get_relative_paths fs_kind_conflict [''s''] = [[''a'']]"
    by (simp add: eval_defs fs_kind_conflict_def)
  have t: "get_relative_paths fs_kind_conflict [''t''] = [[''a'']]"
    by (simp add: eval_defs fs_kind_conflict_def)
  have k: "is_dir fs_kind_conflict [''s'', ''a'']
   \<and> exists fs_kind_conflict [''t'', ''a''] \<and> \<not> is_dir fs_kind_conflict [''t'', ''a'']"
    by (simp add: eval_defs fs_kind_conflict_def)
  have d: "sync_directories 0 fs_kind_conflict [''s''] [''t''] True [] 2
       = (Inr (0, 0, 0, 0), fs_kind_conflict)"
    apply (simp add: sync_defs s t)
    apply (simp add: sync_defs eval_defs fs_kind_conflict_def Let_def)
    done
  have s': "get_relative_paths fs_dest_link [''s''] = [[''a'']]"
    by (simp add: eval_defs fs_dest_link_def)
  have t': "get_relative_paths fs_dest_link [''t''] = []"
    by (simp add: eval_defs fs_dest_link_def)
  have k': "\<not> is_symlink fs_dest_link [''s'', ''a''] \<and> is_symlink fs_dest_link [''t'', ''a'']"
    by (simp add: eval_defs fs_dest_link_def)
  have d': "sync_directories 0 fs_dest_link [''s''] [''t''] True [] 2
       = (Inr (0, 0, 0, 0), fs_dest_link)"
    apply (simp add: sync_defs s' t')
    apply (simp add: sync_defs eval_defs fs_dest_link_def Let_def)
    done
  show ?thesis
    using k d s' t' k' d' by simp
qed


subsection \<open>The delete loop\<close>

text \<open>
  \<open>entry fs p\<close> is the entry at \<open>p\<close> without what is below it: a directory is shown
  without its entries.  A step that removes or writes one path leaves the entry of every
  other path as it was, also that of the directories above it.
\<close>

fun shallow :: "node \<Rightarrow> node" where
  "shallow (Dir sz a es) = Dir sz a []"
| "shallow n = n"

definition entry :: "node \<Rightarrow> path \<Rightarrow> node option" where
  "entry fs p = map_option shallow (lookup fs p)"

lemma entry_None [simp]: "entry fs p = None \<longleftrightarrow> lookup fs p = None"
  by (simp add: entry_def)




























end
